theory Spec2Isabelle
  imports Main "HOL-Library.Multiset"
begin

section \<open>The bounded-concurrency executor of bot/executors/executor.py\<close>

text \<open>
  The class \<^verbatim>\<open>Executor\<close> keeps a queue of pending workers, a list of running workers
  and a dictionary from running workers to their threads. Every method is modelled as a
  function from the state of one instance to an outcome: the state the method leaves
  behind, together with the exception it raised, if any.

  Workers and threads are objects compared by identity; a natural number stands for the
  identity. A new \<^verbatim>\<open>StoppableThread\<close> object gets the next unused number. What the
  executor does to its collaborators (subscribing to a worker, starting and killing a
  thread, notifying its own observers) is appended to a log, in program order.
\<close>

subsection \<open>Data\<close>

type_synonym worker = nat
type_synonym thread = nat

datatype effect =
    Subscribed worker
  | ThreadStarted thread worker
  | Killed thread
  | Notified

datatype error = OperationalException | AttributeError | KeyError

record executor =
  max_workers :: int
  pending_workers :: "worker list option"
  running_workers :: "worker list"
  running_threads :: "worker \<rightharpoonup> thread"
  spawned :: nat
  effects :: "effect list"

datatype outcome = Returned executor | Raised error executor

fun state_of :: "outcome \<Rightarrow> executor" where
  "state_of (Returned s) = s"
| "state_of (Raised e s) = s"

text \<open>\<^verbatim>\<open>__init__\<close>: no queue yet, nothing running.\<close>

definition init :: "int \<Rightarrow> executor" where
  "init n = \<lparr>max_workers = n, pending_workers = None, running_workers = [],
     running_threads = Map.empty, spawned = 0, effects = []\<rparr>"

subsection \<open>Operations\<close>

text \<open>\<^verbatim>\<open>clean_up\<close> resets the three containers.\<close>

definition clean_up :: "executor \<Rightarrow> executor" where
  "clean_up s = s\<lparr>pending_workers := None, running_workers := [],
     running_threads := Map.empty\<rparr>"

text \<open>
  \<^verbatim>\<open>_initialize\<close>: the result of \<^verbatim>\<open>create_workers\<close> is a parameter (\<open>None\<close> is
  Python's \<^verbatim>\<open>None\<close>). A falsy result raises before the queue is touched; otherwise a new
  queue replaces the old one and receives the workers one by one.
\<close>

definition put :: "worker \<Rightarrow> worker list \<Rightarrow> worker list" where
  "put w q = q @ [w]"

definition initialize :: "worker list option \<Rightarrow> executor \<Rightarrow> outcome" where
  "initialize workers s =
     (case workers of
        None \<Rightarrow> Raised OperationalException s
      | Some [] \<Rightarrow> Raised OperationalException s
      | Some ws \<Rightarrow> Returned (s\<lparr>pending_workers := Some (fold put ws [])\<rparr>))"

text \<open>
  One pass of the loop body of \<^verbatim>\<open>run_jobs\<close>, after the worker has been taken from the
  queue: a new thread object, the executor subscribes to the worker, the thread starts,
  the dictionary and the running list record the worker.
\<close>

definition dispatch :: "worker \<Rightarrow> executor \<Rightarrow> executor" where
  "dispatch w s =
     s\<lparr>running_workers := running_workers s @ [w],
       running_threads := (running_threads s)(w \<mapsto> spawned s),
       spawned := Suc (spawned s),
       effects := effects s @ [Subscribed w, ThreadStarted (spawned s) w]\<rparr>"

text \<open>
  The loop of \<^verbatim>\<open>run_jobs\<close>. The condition reads \<^verbatim>\<open>worker_iteration > 0\<close> first and
  asks the queue only then, so an unset queue raises \<^verbatim>\<open>AttributeError\<close> exactly when
  a slot is free.
\<close>

function run_jobs_loop :: "int \<Rightarrow> executor \<Rightarrow> outcome" where
  "run_jobs_loop worker_iteration s =
     (if worker_iteration > 0 then
        (case pending_workers s of
           None \<Rightarrow> Raised AttributeError s
         | Some [] \<Rightarrow> Returned s
         | Some (w # q) \<Rightarrow>
             run_jobs_loop (worker_iteration - 1)
               (dispatch w (s\<lparr>pending_workers := Some q\<rparr>)))
      else Returned s)"
  by pat_completeness auto
termination
  by (relation "measure (\<lambda>(k, s). nat k)") auto

declare run_jobs_loop.simps [simp del]

definition run_jobs :: "executor \<Rightarrow> outcome" where
  "run_jobs s = run_jobs_loop (max_workers s - int (length (running_workers s))) s"

definition start :: "worker list option \<Rightarrow> executor \<Rightarrow> outcome" where
  "start workers s =
     (case initialize workers s of
        Raised e s' \<Rightarrow> Raised e s'
      | Returned s' \<Rightarrow> run_jobs s')"

text \<open>\<^verbatim>\<open>stop_running_worker\<close>: a dictionary lookup, which raises on a missing key.\<close>

definition stop_running_worker :: "worker \<Rightarrow> executor \<Rightarrow> outcome" where
  "stop_running_worker w s =
     (case running_threads s w of
        None \<Rightarrow> Raised KeyError s
      | Some t \<Rightarrow> Returned (s\<lparr>effects := effects s @ [Killed t]\<rparr>))"

fun stop_loop :: "worker list \<Rightarrow> executor \<Rightarrow> outcome" where
  "stop_loop [] s = Returned s"
| "stop_loop (w # ws) s =
     (case stop_running_worker w s of
        Raised e s' \<Rightarrow> Raised e s'
      | Returned s' \<Rightarrow> stop_loop ws s')"

definition stop :: "executor \<Rightarrow> outcome" where
  "stop s =
     (case stop_loop (running_workers s) s of
        Raised e s' \<Rightarrow> Raised e s'
      | Returned s' \<Rightarrow> Returned (clean_up s'))"

definition processing :: "executor \<Rightarrow> bool" where
  "processing s \<longleftrightarrow>
     (case pending_workers s of None \<Rightarrow> False | Some q \<Rightarrow> q \<noteq> [])
     \<or> length (running_workers s) > 0"

text \<open>
  \<^verbatim>\<open>update\<close>, the completion handler. \<^verbatim>\<open>list.remove\<close> deletes the first occurrence,
  as \<^const>\<open>remove1\<close> does.
\<close>

definition notify_observers :: "executor \<Rightarrow> executor" where
  "notify_observers s = s\<lparr>effects := effects s @ [Notified]\<rparr>"

definition update :: "worker \<Rightarrow> executor \<Rightarrow> outcome" where
  "update observable s =
     (let s1 = (if observable \<in> set (running_workers s)
                then s\<lparr>running_workers := remove1 observable (running_workers s)\<rparr>
                else s)
      in if \<not> processing s1 then Returned (notify_observers s1) else run_jobs s1)"

subsection \<open>Calls on one instance\<close>

text \<open>
  A caller may invoke the methods in any order; after an exception the instance stays as
  the method left it and the next call goes on from there.
\<close>

datatype call =
    Start "worker list option"
  | RunJobs
  | Update worker
  | Stop
  | CleanUp

fun exec :: "call \<Rightarrow> executor \<Rightarrow> outcome" where
  "exec (Start workers) s = start workers s"
| "exec RunJobs s = run_jobs s"
| "exec (Update w) s = update w s"
| "exec Stop s = stop s"
| "exec CleanUp s = Returned (clean_up s)"

fun calls :: "call list \<Rightarrow> executor \<Rightarrow> executor" where
  "calls [] s = s"
| "calls (c # cs) s = calls cs (state_of (exec c s))"

text \<open>The completion signals of a list of workers, one after the other.\<close>

fun completions :: "worker list \<Rightarrow> executor \<Rightarrow> outcome" where
  "completions [] s = Returned s"
| "completions (w # ws) s =
     (case update w s of
        Raised e s' \<Rightarrow> Raised e s'
      | Returned s' \<Rightarrow> completions ws s')"


subsection \<open>Reading the log\<close>

fun started :: "effect list \<Rightarrow> worker list" where
  "started [] = []"
| "started (ThreadStarted t w # es) = w # started es"
| "started (e # es) = started es"

fun notifications :: "effect list \<Rightarrow> nat" where
  "notifications [] = 0"
| "notifications (Notified # es) = Suc (notifications es)"
| "notifications (e # es) = notifications es"

fun pending_count :: "executor \<Rightarrow> nat" where
  "pending_count s = (case pending_workers s of None \<Rightarrow> 0 | Some q \<Rightarrow> length q)"

subsection \<open>Invariants of an instance\<close>

text \<open>
  What holds of an instance between calls: the bound on the running list, a thread for
  every running worker, nothing running while the queue is unset; and, after any call,
  either the queue has nothing to give or no slot is free.
\<close>

definition wellformed :: "int \<Rightarrow> executor \<Rightarrow> bool" where
  "wellformed n s \<longleftrightarrow>
     max_workers s = n \<and>
     int (length (running_workers s)) \<le> max 0 n \<and>
     set (running_workers s) \<subseteq> dom (running_threads s) \<and>
     (pending_workers s = None \<longrightarrow> running_workers s = [])"

definition settled :: "executor \<Rightarrow> bool" where
  "settled s \<longleftrightarrow>
     pending_workers s = None \<or> pending_workers s = Some [] \<or>
     max_workers s \<le> int (length (running_workers s))"

text \<open>A call returned, that is, raised nothing.\<close>

fun returned :: "outcome \<Rightarrow> bool" where
  "returned (Returned s) = True"
| "returned (Raised e s) = False"

text \<open>The calls that happen while one batch runs: completion signals and dispatch.\<close>

fun within_run :: "call \<Rightarrow> bool" where
  "within_run (Update w) = True"
| "within_run RunJobs = True"
| "within_run c = False"



section \<open>Auxiliary facts\<close>

lemma started_append: "started (xs @ ys) = started xs @ started ys"
  by (induction xs rule: started.induct) auto

lemma notifications_append: "notifications (xs @ ys) = notifications xs + notifications ys"
  by (induction xs rule: notifications.induct) auto

lemma fold_put: "fold put ws q = q @ ws"
  by (induction ws arbitrary: q) (auto simp: put_def)

lemma run_jobs_loop_idle:
  "k \<le> 0 \<or> pending_workers s = Some [] \<Longrightarrow> run_jobs_loop k s = Returned s"
  by (auto simp: run_jobs_loop.simps)

lemma run_jobs_loop_unset:
  "0 < k \<Longrightarrow> pending_workers s = None \<Longrightarrow> run_jobs_loop k s = Raised AttributeError s"
  by (simp add: run_jobs_loop.simps)

lemma run_jobs_loop_queue:
  "pending_workers s = Some q \<Longrightarrow>
   \<exists>s'. run_jobs_loop k s = Returned s' \<and>
     max_workers s' = max_workers s \<and>
     pending_workers s' = Some (drop (nat k) q) \<and>
     running_workers s' = running_workers s @ take (nat k) q \<and>
     dom (running_threads s') = dom (running_threads s) \<union> set (take (nat k) q) \<and>
     started (effects s') = started (effects s) @ take (nat k) q \<and>
     notifications (effects s') = notifications (effects s)"
proof (induction q arbitrary: k s)
  case Nil
  then show ?case by (simp add: run_jobs_loop.simps)
next
  case (Cons w q)
  show ?case
  proof (cases "0 < k")
    case False
    then show ?thesis using Cons.prems by (simp add: run_jobs_loop.simps)
  next
    case True
    let ?s1 = "dispatch w (s\<lparr>pending_workers := Some q\<rparr>)"
    have p1: "pending_workers ?s1 = Some q" by (simp add: dispatch_def)
    have step: "run_jobs_loop k s = run_jobs_loop (k - 1) ?s1"
      using True Cons.prems by (simp add: run_jobs_loop.simps)
    have k: "nat k = Suc (nat (k - 1))" using True by simp
    from Cons.IH [OF p1, of "k - 1"] obtain s' where
      "run_jobs_loop (k - 1) ?s1 = Returned s'"
      "max_workers s' = max_workers ?s1"
      "pending_workers s' = Some (drop (nat (k - 1)) q)"
      "running_workers s' = running_workers ?s1 @ take (nat (k - 1)) q"
      "dom (running_threads s') = dom (running_threads ?s1) \<union> set (take (nat (k - 1)) q)"
      "started (effects s') = started (effects ?s1) @ take (nat (k - 1)) q"
      "notifications (effects s') = notifications (effects ?s1)"
      by blast
    then show ?thesis
      unfolding step k
      by (simp add: dispatch_def started_append notifications_append)
  qed
qed

lemma wellformed_init: "wellformed n (init n) \<and> settled (init n)"
  by (simp add: wellformed_def settled_def init_def)

lemma wellformed_clean_up:
  "max_workers s = n \<Longrightarrow> wellformed n (clean_up s) \<and> settled (clean_up s)"
  by (simp add: wellformed_def settled_def clean_up_def)

lemma run_jobs_wellformed:
  assumes "wellformed n s"
  shows "wellformed n (state_of (run_jobs s)) \<and> settled (state_of (run_jobs s))"
proof (cases "pending_workers s")
  case None
  with assms have r: "running_workers s = []" by (simp add: wellformed_def)
  have "state_of (run_jobs s) = s"
    using None r
    by (cases "0 < max_workers s")
       (simp_all add: run_jobs_def run_jobs_loop_unset run_jobs_loop_idle)
  with assms None show ?thesis by (simp add: settled_def)
next
  case (Some q)
  let ?k = "max_workers s - int (length (running_workers s))"
  from run_jobs_loop_queue [OF Some, of ?k] obtain s' where
    s': "run_jobs s = Returned s'"
      "max_workers s' = max_workers s"
      "pending_workers s' = Some (drop (nat ?k) q)"
      "running_workers s' = running_workers s @ take (nat ?k) q"
      "dom (running_threads s') = dom (running_threads s) \<union> set (take (nat ?k) q)"
    unfolding run_jobs_def by blast
  have len: "int (length (running_workers s')) \<le> max 0 n"
    using assms s'(4) by (auto simp: wellformed_def min_def)
  have keys: "set (running_workers s') \<subseteq> dom (running_threads s')"
    using assms s'(4,5) by (auto simp: wellformed_def)
  have full: "drop (nat ?k) q = [] \<or> max_workers s' \<le> int (length (running_workers s'))"
    using s'(2,4) by (auto simp: min_def)
  show ?thesis
    using assms s'(1,2,3) len keys full
    by (auto simp: wellformed_def settled_def)
qed

lemma stop_loop_kills:
  "set ws \<subseteq> dom (running_threads s) \<Longrightarrow>
   stop_loop ws s =
     Returned (s\<lparr>effects := effects s @ map (\<lambda>w. Killed (the (running_threads s w))) ws\<rparr>)"
proof (induction ws arbitrary: s)
  case Nil
  then show ?case by simp
next
  case (Cons w ws)
  then obtain t where t: "running_threads s w = Some t" by auto
  let ?s1 = "s\<lparr>effects := effects s @ [Killed t]\<rparr>"
  have "set ws \<subseteq> dom (running_threads ?s1)" using Cons.prems by simp
  from Cons.IH [OF this] t show ?case
    by (simp add: stop_running_worker_def)
qed

lemma stop_wellformed:
  assumes "wellformed n s"
  shows "wellformed n (state_of (stop s)) \<and> settled (state_of (stop s))"
proof -
  have "set (running_workers s) \<subseteq> dom (running_threads s)"
    using assms by (simp add: wellformed_def)
  from stop_loop_kills [OF this] assms show ?thesis
    by (simp add: stop_def wellformed_def settled_def clean_up_def)
qed

lemma start_wellformed:
  assumes "wellformed n s" "settled s"
  shows "wellformed n (state_of (start workers s)) \<and> settled (state_of (start workers s))"
proof (cases "initialize workers s")
  case (Raised e s')
  then have "s' = s"
    by (auto simp: initialize_def split: option.splits list.splits)
  with Raised assms show ?thesis by (simp add: start_def)
next
  case (Returned s')
  then obtain ws where "s' = s\<lparr>pending_workers := Some ws\<rparr>"
    by (auto simp: initialize_def split: option.splits list.splits)
  with assms have "wellformed n s'" by (simp add: wellformed_def)
  from run_jobs_wellformed [OF this] Returned show ?thesis by (simp add: start_def)
qed

lemma update_wellformed:
  assumes "wellformed n s"
  shows "wellformed n (state_of (update w s)) \<and> settled (state_of (update w s))"
proof -
  define s1 where "s1 = (if w \<in> set (running_workers s)
      then s\<lparr>running_workers := remove1 w (running_workers s)\<rparr> else s)"
  have wf1: "wellformed n s1"
    using assms set_remove1_subset [of w "running_workers s"]
    by (auto simp: s1_def wellformed_def length_remove1)
  have upd: "update w s = (if \<not> processing s1 then Returned (notify_observers s1) else run_jobs s1)"
    by (simp add: update_def s1_def Let_def)
  show ?thesis
  proof (cases "processing s1")
    case True
    with upd run_jobs_wellformed [OF wf1] show ?thesis by simp
  next
    case False
    then have "settled (notify_observers s1)"
      by (auto simp: processing_def settled_def notify_observers_def split: option.splits)
    moreover have "wellformed n (notify_observers s1)"
      using wf1 by (simp add: wellformed_def notify_observers_def)
    ultimately show ?thesis using upd False by simp
  qed
qed

lemma exec_wellformed:
  assumes "wellformed n s" "settled s"
  shows "wellformed n (state_of (exec c s)) \<and> settled (state_of (exec c s))"
proof (cases c)
  case (Start workers)
  with start_wellformed [OF assms] show ?thesis by simp
next
  case RunJobs
  with run_jobs_wellformed [OF assms(1)] show ?thesis by simp
next
  case (Update w)
  with update_wellformed [OF assms(1)] show ?thesis by simp
next
  case Stop
  with stop_wellformed [OF assms(1)] show ?thesis by simp
next
  case CleanUp
  with wellformed_clean_up [of s n] assms(1) show ?thesis by (simp add: wellformed_def)
qed

lemma calls_wellformed:
  "wellformed n s \<Longrightarrow> settled s \<Longrightarrow> wellformed n (calls cs s) \<and> settled (calls cs s)"
proof (induction cs arbitrary: s)
  case Nil
  then show ?case by simp
next
  case (Cons c cs)
  from exec_wellformed [OF Cons.prems] Cons.IH show ?case by simp
qed

lemma reachable_wellformed:
  "wellformed n (calls cs (init n)) \<and> settled (calls cs (init n))"
  using calls_wellformed wellformed_init by blast

lemma dom_run_jobs: "dom (running_threads s) \<subseteq> dom (running_threads (state_of (run_jobs s)))"
proof (cases "pending_workers s")
  case None
  then have "state_of (run_jobs s) = s"
    by (cases "0 < max_workers s - int (length (running_workers s))")
       (simp_all add: run_jobs_def run_jobs_loop_unset run_jobs_loop_idle)
  then show ?thesis by simp
next
  case (Some q)
  from run_jobs_loop_queue [OF Some, of "max_workers s - int (length (running_workers s))"]
  obtain s' where "run_jobs s = Returned s'"
    "dom (running_threads s') = dom (running_threads s)
       \<union> set (take (nat (max_workers s - int (length (running_workers s)))) q)"
    unfolding run_jobs_def by blast
  then show ?thesis by simp
qed

lemma run_jobs_idle:
  "pending_workers s = Some [] \<or> max_workers s - int (length (running_workers s)) \<le> 0
   \<Longrightarrow> run_jobs s = Returned s"
  unfolding run_jobs_def by (rule run_jobs_loop_idle) auto

lemma update_absent:
  assumes "wellformed n s" "settled s" "w \<notin> set (running_workers s)"
  shows "update w s = Returned s \<or> update w s = Returned (notify_observers s)"
proof (cases "processing s")
  case False
  with assms(3) show ?thesis by (simp add: update_def Let_def)
next
  case True
  have "pending_workers s \<noteq> None"
    using True assms(1) by (auto simp: processing_def wellformed_def split: option.splits)
  with assms(2) have "pending_workers s = Some [] \<or>
      max_workers s - int (length (running_workers s)) \<le> 0"
    by (auto simp: settled_def)
  from run_jobs_idle [OF this] True assms(3) show ?thesis
    by (simp add: update_def Let_def)
qed

lemma run_jobs_fifo:
  assumes "pending_workers s = Some q"
  shows "\<exists>j s'. run_jobs s = Returned s' \<and> j \<le> length q \<and>
    pending_workers s' = Some (drop j q) \<and>
    started (effects s') = started (effects s) @ take j q"
proof -
  let ?k = "nat (max_workers s - int (length (running_workers s)))"
  from run_jobs_loop_queue [OF assms, of "max_workers s - int (length (running_workers s))"]
  obtain s' where s': "run_jobs s = Returned s'"
    "pending_workers s' = Some (drop ?k q)"
    "started (effects s') = started (effects s) @ take ?k q"
    unfolding run_jobs_def by blast
  have "drop (min ?k (length q)) q = drop ?k q" "take (min ?k (length q)) q = take ?k q"
    by (simp_all add: min_def)
  with s' have "run_jobs s = Returned s' \<and> min ?k (length q) \<le> length q \<and>
    pending_workers s' = Some (drop (min ?k (length q)) q) \<and>
    started (effects s') = started (effects s) @ take (min ?k (length q)) q"
    by simp
  then show ?thesis by blast
qed

lemma exec_fifo:
  assumes "pending_workers s = Some q" "within_run c"
  shows "\<exists>j s'. exec c s = Returned s' \<and> j \<le> length q \<and>
    pending_workers s' = Some (drop j q) \<and>
    started (effects s') = started (effects s) @ take j q"
proof (cases c)
  case RunJobs
  with run_jobs_fifo [OF assms(1)] show ?thesis by simp
next
  case (Update w)
  define s1 where "s1 = (if w \<in> set (running_workers s)
      then s\<lparr>running_workers := remove1 w (running_workers s)\<rparr> else s)"
  have p1: "pending_workers s1 = Some q" and e1: "effects s1 = effects s"
    using assms(1) by (simp_all add: s1_def)
  have upd: "update w s = (if \<not> processing s1 then Returned (notify_observers s1) else run_jobs s1)"
    by (simp add: update_def s1_def Let_def)
  show ?thesis
  proof (cases "processing s1")
    case True
    with run_jobs_fifo [OF p1] upd e1 Update show ?thesis by simp
  next
    case False
    have "exec c s = Returned (notify_observers s1) \<and> 0 \<le> length q \<and>
      pending_workers (notify_observers s1) = Some (drop 0 q) \<and>
      started (effects (notify_observers s1)) = started (effects s) @ take 0 q"
      using False upd p1 e1 Update by (simp add: notify_observers_def started_append)
    then show ?thesis by blast
  qed
qed (use assms(2) in simp_all)

lemma calls_fifo:
  assumes "list_all within_run cs" "k \<le> length ws"
    "pending_workers s = Some (drop k ws)" "started (effects s) = base @ take k ws"
  shows "\<exists>k'\<le>length ws. pending_workers (calls cs s) = Some (drop k' ws) \<and>
    started (effects (calls cs s)) = base @ take k' ws"
  using assms
proof (induction cs arbitrary: k s)
  case Nil
  then show ?case by auto
next
  case (Cons c cs)
  from Cons.prems(1) have c: "within_run c" and cs: "list_all within_run cs" by simp_all
  from exec_fifo [OF Cons.prems(3) c] obtain j s' where
    s': "exec c s = Returned s'" "j \<le> length (drop k ws)"
      "pending_workers s' = Some (drop j (drop k ws))"
      "started (effects s') = started (effects s) @ take j (drop k ws)"
    by blast
  have k': "k + j \<le> length ws" using s'(2) Cons.prems(2) by simp
  have p': "pending_workers s' = Some (drop (k + j) ws)"
    using s'(3) by (simp add: add.commute)
  have e': "started (effects s') = base @ take (k + j) ws"
    using s'(4) Cons.prems(4) by (simp add: take_add)
  from Cons.IH [OF cs k' p' e'] s'(1) show ?case by simp
qed












text \<open>The definitions a concrete run is evaluated with.\<close>

lemmas evals = init_def start_def initialize_def put_def run_jobs_def run_jobs_loop.simps
  dispatch_def update_def processing_def notify_observers_def stop_def
  stop_running_worker_def clean_up_def Let_def

section \<open>The claims\<close>

subsection \<open>C1: the running list stays within the bound\<close>

text \<open>
  C1, as amended. For every configured \<open>max_workers = n\<close> that is not negative, and
  every state an instance reaches by any sequence of \<^verbatim>\<open>start\<close>, \<^verbatim>\<open>run_jobs\<close>,
  \<^verbatim>\<open>update\<close>, \<^verbatim>\<open>stop\<close> and \<^verbatim>\<open>clean_up\<close> calls, the running list has at most
  \<open>n\<close> members; and one call of \<^verbatim>\<open>run_jobs\<close>, in any state, adds at most
  \<open>max_workers - |running|\<close> workers to it (none when that number is negative).
\<close>

theorem running_bounded:
  assumes "0 \<le> n"
  shows "int (length (running_workers (calls cs (init n)))) \<le> n \<and>
    int (length (running_workers (state_of (run_jobs s))))
      \<le> int (length (running_workers s))
         + max 0 (max_workers s - int (length (running_workers s)))"
proof
  from reachable_wellformed [of n cs] assms
  show "int (length (running_workers (calls cs (init n)))) \<le> n"
    by (simp add: wellformed_def)
next
  show "int (length (running_workers (state_of (run_jobs s))))
      \<le> int (length (running_workers s))
         + max 0 (max_workers s - int (length (running_workers s)))"
  proof (cases "pending_workers s")
    case None
    then have "state_of (run_jobs s) = s"
      by (cases "0 < max_workers s - int (length (running_workers s))")
         (simp_all add: run_jobs_def run_jobs_loop_unset run_jobs_loop_idle)
    then show ?thesis by simp
  next
    case (Some q)
    from run_jobs_loop_queue [OF Some, of "max_workers s - int (length (running_workers s))"]
    show ?thesis unfolding run_jobs_def by (auto simp: min_def)
  qed
qed

theorem running_bounded_witness:
  "(0::int) \<le> 2 \<and>
   running_workers (calls [Start (Some [10, 20, 30]), Update 10] (init 2)) = [20, 30] \<and>
   int (length (running_workers (calls [Start (Some [10, 20, 30]), Update 10] (init 2)))) \<le> 2"
  using running_bounded [of 2 "[Start (Some [10, 20, 30]), Update 10]"]
  by (simp add: evals)

text \<open>
  The claim as stated covers every integer \<open>n\<close>; the constructor accepts a negative
  one, and then the empty running list of the new instance is already longer than \<open>n\<close>.
\<close>

theorem running_exceeds_negative_bound:
  "\<not> int (length (running_workers (calls [] (init (- 1))))) \<le> - 1"
  by (simp add: init_def)

subsection \<open>C2: one notification per batch\<close>




subsection \<open>C3: a factory without workers\<close>

text \<open>
  C3. When \<^verbatim>\<open>create_workers\<close> returns \<^verbatim>\<open>None\<close> or an empty list, \<^verbatim>\<open>start\<close> raises
  \<^verbatim>\<open>OperationalException\<close> and leaves the instance exactly as it was, log included: no
  worker is subscribed to, no thread is started. On a new instance the running list and
  the dictionary are therefore empty afterwards and the queue holds no worker.
\<close>

theorem start_without_workers:
  assumes "workers = None \<or> workers = Some []"
  shows "start workers s = Raised OperationalException s \<and>
    running_workers (state_of (start workers (init n))) = [] \<and>
    pending_count (state_of (start workers (init n))) = 0 \<and>
    running_threads (state_of (start workers (init n))) = Map.empty \<and>
    effects (state_of (start workers (init n))) = []"
proof -
  have "start workers t = Raised OperationalException t" for t
    using assms by (auto simp: start_def initialize_def)
  then show ?thesis by (simp add: init_def)
qed

theorem start_without_workers_witness:
  "start (Some []) (calls [Start (Some [10, 20])] (init 1))
     = Raised OperationalException (calls [Start (Some [10, 20])] (init 1)) \<and>
   start None (init 5) = Raised OperationalException (init 5) \<and>
   running_workers (state_of (start (Some []) (init 5))) = []"
  using start_without_workers [of "Some []" "calls [Start (Some [10, 20])] (init 1)" 5]
    start_without_workers [of None "init 5" 5]
  by simp

subsection \<open>C4: running workers and their threads\<close>

text \<open>
  C4, as amended. In every reachable state every worker of the running list has an entry
  in \<^verbatim>\<open>_running_threads\<close> (one entry, the dictionary having one value per key). The
  converse is not kept: \<^verbatim>\<open>update\<close> never removes a key of the dictionary, in any state.
\<close>

theorem running_have_threads:
  "set (running_workers (calls cs (init n))) \<subseteq> dom (running_threads (calls cs (init n))) \<and>
   dom (running_threads s) \<subseteq> dom (running_threads (state_of (update w s)))"
proof
  from reachable_wellformed [of n cs]
  show "set (running_workers (calls cs (init n))) \<subseteq> dom (running_threads (calls cs (init n)))"
    by (simp add: wellformed_def)
next
  define s1 where "s1 = (if w \<in> set (running_workers s)
      then s\<lparr>running_workers := remove1 w (running_workers s)\<rparr> else s)"
  have d: "dom (running_threads s1) = dom (running_threads s)" by (simp add: s1_def)
  have "update w s = (if \<not> processing s1 then Returned (notify_observers s1) else run_jobs s1)"
    by (simp add: update_def s1_def Let_def)
  with dom_run_jobs [of s1] d
  show "dom (running_threads s) \<subseteq> dom (running_threads (state_of (update w s)))"
    by (auto simp: notify_observers_def)
qed

theorem running_have_threads_witness:
  "set (running_workers (calls [Start (Some [10, 20, 30]), Update 10] (init 2)))
     \<subseteq> dom (running_threads (calls [Start (Some [10, 20, 30]), Update 10] (init 2))) \<and>
   running_workers (calls [Start (Some [10, 20, 30]), Update 10] (init 2)) = [20, 30] \<and>
   running_threads (calls [Start (Some [10, 20, 30]), Update 10] (init 2)) 10 = Some 0"
  using running_have_threads [of "[Start (Some [10, 20, 30]), Update 10]" 2]
  by (simp add: evals)

text \<open>
  The claim as stated also asks that every key of the dictionary is a running worker.
  After one worker has been started and has completed, its key is still there.
\<close>

theorem thread_outlives_running_entry:
  "running_threads (calls [Start (Some [7]), Update 7] (init 1)) 7 = Some 0 \<and>
   7 \<notin> set (running_workers (calls [Start (Some [7]), Update 7] (init 1)))"
  by (simp add: evals)

subsection \<open>C5: a completion signal for a worker that is not running\<close>

text \<open>
  C5. In every reachable state, \<^verbatim>\<open>update\<close> for a worker that is not in the running list
  returns without an exception and leaves the running list, the queue, the dictionary and
  hence the number of free slots as they were; a second invocation for the same worker
  returns as well and leaves the running list as the first one left it.
\<close>

theorem update_absent_is_noop:
  assumes "w \<notin> set (running_workers (calls cs (init n)))"
  shows "\<exists>s' s''. update w (calls cs (init n)) = Returned s' \<and>
    running_workers s' = running_workers (calls cs (init n)) \<and>
    pending_workers s' = pending_workers (calls cs (init n)) \<and>
    running_threads s' = running_threads (calls cs (init n)) \<and>
    max_workers s' - int (length (running_workers s'))
      = max_workers (calls cs (init n)) - int (length (running_workers (calls cs (init n)))) \<and>
    update w s' = Returned s'' \<and>
    running_workers s'' = running_workers s'"
proof -
  let ?s = "calls cs (init n)"
  have wf: "wellformed n ?s" "settled ?s" using reachable_wellformed [of n cs] by simp_all
  from update_absent [OF wf assms] obtain s' where
    s': "update w ?s = Returned s'" "s' = ?s \<or> s' = notify_observers ?s" by blast
  then have same: "running_workers s' = running_workers ?s"
    "pending_workers s' = pending_workers ?s"
    "running_threads s' = running_threads ?s"
    "max_workers s' = max_workers ?s"
    by (auto simp: notify_observers_def)
  have wf': "wellformed n s'" "settled s'"
    using wf same by (simp_all add: wellformed_def settled_def)
  have "w \<notin> set (running_workers s')" using assms same by simp
  from update_absent [OF wf' this] obtain s'' where
    "update w s' = Returned s''" "s'' = s' \<or> s'' = notify_observers s'" by blast
  then have "update w s' = Returned s'' \<and> running_workers s'' = running_workers s'"
    by (auto simp: notify_observers_def)
  with s'(1) same show ?thesis by simp
qed

theorem update_absent_is_noop_witness:
  "10 \<notin> set (running_workers (calls [Start (Some [10, 20, 30]), Update 10] (init 2))) \<and>
   running_workers (calls [Start (Some [10, 20, 30]), Update 10] (init 2)) = [20, 30] \<and>
   running_workers (state_of (update 10 (calls [Start (Some [10, 20, 30]), Update 10] (init 2))))
     = [20, 30] \<and>
   returned (update 10 (calls [Start (Some [10, 20, 30]), Update 10] (init 2)))"
  using update_absent_is_noop [of 10 "[Start (Some [10, 20, 30]), Update 10]" 2]
  by (simp add: evals)

subsection \<open>C6: \<^verbatim>\<open>run_jobs\<close> on an unset queue\<close>

text \<open>
  C6. The claim asks that \<^verbatim>\<open>run_jobs\<close> is a no-op also while the queue is unset. On a
  new instance with \<open>max_workers = 1\<close>, and on an instance that was started and stopped,
  a slot is free, the loop condition asks \<^verbatim>\<open>None\<close> whether it is empty, and the call
  raises \<^verbatim>\<open>AttributeError\<close>.
\<close>

theorem run_jobs_unset_queue:
  "run_jobs (init 1) = Raised AttributeError (init 1) \<and>
   run_jobs (state_of (stop (state_of (start (Some [7]) (init 1)))))
     = Raised AttributeError (state_of (stop (state_of (start (Some [7]) (init 1)))))"
  by (simp add: evals)

subsection \<open>C7: dispatch in the order of the factory\<close>

text \<open>
  C7. Let \<^verbatim>\<open>start\<close> receive the non-empty batch \<open>ws\<close> in any state. It returns, and after
  any further sequence of \<^verbatim>\<open>update\<close> calls (for any workers, in any order) and
  \<^verbatim>\<open>run_jobs\<close> calls, the workers whose threads were started since are the first \<open>k\<close>
  workers of \<open>ws\<close>, started in the order of \<open>ws\<close>, and the queue holds the rest of
  \<open>ws\<close>, in order.
\<close>

theorem dispatch_is_fifo:
  assumes "ws \<noteq> []" "list_all within_run cs"
  shows "returned (start (Some ws) s) \<and>
    (\<exists>k\<le>length ws.
       started (effects (calls cs (state_of (start (Some ws) s))))
         = started (effects s) @ take k ws \<and>
       pending_workers (calls cs (state_of (start (Some ws) s))) = Some (drop k ws))"
proof -
  let ?s1 = "s\<lparr>pending_workers := Some ws\<rparr>"
  have st: "start (Some ws) s = run_jobs ?s1"
    using assms(1) by (cases ws) (simp_all add: start_def initialize_def fold_put put_def)
  have "pending_workers ?s1 = Some ws" by simp
  from run_jobs_fifo [OF this] obtain j s0 where
    s0: "run_jobs ?s1 = Returned s0" "j \<le> length ws"
      "pending_workers s0 = Some (drop j ws)"
      "started (effects s0) = started (effects s) @ take j ws"
    by auto
  from calls_fifo [OF assms(2) s0(2,3,4)] st s0(1) show ?thesis by auto
qed

theorem dispatch_is_fifo_witness:
  "started (effects (calls [Update 30, Update 20, RunJobs, Update 10]
      (state_of (start (Some [10, 20, 30]) (init 2))))) = [10, 20, 30] \<and>
   started (effects (calls [Update 20] (state_of (start (Some [10, 20, 30]) (init 1)))))
     = [10] \<and>
   started (effects (calls [Update 20, Update 10] (state_of (start (Some [10, 20, 30]) (init 1)))))
     = [10, 20] \<and>
   returned (start (Some [10, 20, 30]) (init 2))"
  using dispatch_is_fifo [of "[10, 20, 30]" "[Update 30, Update 20, RunJobs, Update 10]" "init 2"]
  by (simp add: evals)

subsection \<open>C8: \<^verbatim>\<open>stop\<close>\<close>

text \<open>
  C8. In every reachable state \<^verbatim>\<open>stop\<close> returns without an exception; it has called
  \<^verbatim>\<open>kill\<close> on the thread of every worker of the running list, in the order of the list
  (each of them has a thread), and it leaves the queue unset, the running list empty and
  the dictionary empty.
\<close>

theorem stop_kills_and_resets:
  "\<exists>s'. stop (calls cs (init n)) = Returned s' \<and>
     effects s' = effects (calls cs (init n))
        @ map (\<lambda>w. Killed (the (running_threads (calls cs (init n)) w)))
            (running_workers (calls cs (init n))) \<and>
     set (running_workers (calls cs (init n))) \<subseteq> dom (running_threads (calls cs (init n))) \<and>
     pending_workers s' = None \<and> running_workers s' = [] \<and> running_threads s' = Map.empty"
proof -
  have sub: "set (running_workers (calls cs (init n))) \<subseteq> dom (running_threads (calls cs (init n)))"
    using reachable_wellformed [of n cs] by (simp add: wellformed_def)
  from stop_loop_kills [OF sub] sub show ?thesis
    by (simp add: stop_def clean_up_def)
qed

theorem stop_kills_and_resets_witness:
  "stop (calls [Start (Some [10, 20, 30]), Update 10] (init 2)) =
     Returned \<lparr>max_workers = 2, pending_workers = None, running_workers = [],
       running_threads = Map.empty, spawned = 3,
       effects = [Subscribed 10, ThreadStarted 0 10, Subscribed 20, ThreadStarted 1 20,
         Subscribed 30, ThreadStarted 2 30, Killed 1, Killed 2]\<rparr> \<and>
   returned (stop (init 2))"
  using stop_kills_and_resets [of "[Start (Some [10, 20, 30]), Update 10]" 2]
  by (simp add: evals)

subsection \<open>C10: the notification is not latched\<close>

text \<open>
  C10. In every state in which \<^verbatim>\<open>processing\<close> is false, a call of \<^verbatim>\<open>update\<close>, for
  any worker, returns after one more call of \<^verbatim>\<open>notify_observers\<close> and changes nothing
  else; so a list of such signals adds one notification per signal.
\<close>

theorem update_idle_notifies_again:
  assumes "\<not> processing s"
  shows "update w s = Returned (s\<lparr>effects := effects s @ [Notified]\<rparr>) \<and>
    completions ws s = Returned (s\<lparr>effects := effects s @ replicate (length ws) Notified\<rparr>)"
proof -
  have absent: "w \<notin> set (running_workers t)" if "\<not> processing t" for w t
    using that by (auto simp: processing_def)
  have one: "update w t = Returned (t\<lparr>effects := effects t @ [Notified]\<rparr>)"
    if "\<not> processing t" for w t
    using that absent [OF that, of w] by (simp add: update_def notify_observers_def Let_def)
  have "completions ws s = Returned (s\<lparr>effects := effects s @ replicate (length ws) Notified\<rparr>)"
    using assms
  proof (induction ws arbitrary: s)
    case Nil
    then show ?case by simp
  next
    case (Cons v ws)
    let ?s1 = "s\<lparr>effects := effects s @ [Notified]\<rparr>"
    have idle: "\<not> processing ?s1" using Cons.prems by (simp add: processing_def)
    from Cons.IH [OF idle] one [OF Cons.prems, of v] show ?case
      by (simp add: replicate_app_Cons_same)
  qed
  with one [OF assms] show ?thesis by simp
qed

theorem update_idle_notifies_again_witness:
  "\<not> processing (calls [Start (Some [10]), Update 10] (init 1)) \<and>
   notifications (effects (calls [Start (Some [10]), Update 10] (init 1))) = 1 \<and>
   notifications (effects (state_of (update 10 (calls [Start (Some [10]), Update 10] (init 1))))) = 2 \<and>
   notifications (effects (state_of
     (completions [10, 10, 99] (calls [Start (Some [10]), Update 10] (init 1))))) = 4"
  using update_idle_notifies_again [of "calls [Start (Some [10]), Update 10] (init 1)" 10 "[10, 10, 99]"]
  by (simp add: evals)

end
